theory Spec2Isabelle
  imports Main "HOL-Library.Word"
begin

unbundle bit_operations_syntax

section \<open>Buffers\<close>

text \<open>
  A datagram is a Node.js \<open>Buffer\<close>: a sequence of bytes. Offsets and lengths are
  non-negative JavaScript numbers, far below the range where doubles lose precision,
  and are modelled as natural numbers.

  The parser raises no typed errors of its own: a read outside the buffer throws the
  runtime's range error, and the packet-number switch throws a plain \<open>Error\<close>. The
  error kinds below name these failures by their cause, with the names of the
  specification: \<open>TruncatedInput\<close> is a read past the end of the buffer,
  \<open>InvalidPacketNumberWidth\<close> is the \<open>default\<close> branch of the width switch,
  \<open>InvalidFieldLength\<close> is a wire value that rejects the length it is built with.
\<close>

type_synonym byte = "8 word"

type_synonym Buffer = "byte list"

datatype error = TruncatedInput | InvalidFieldLength | InvalidPacketNumberWidth | ValueTooLarge

text \<open>\<open>buf.readUInt8(offset)\<close>: throws when the offset is not inside the buffer.\<close>

definition readUInt8 :: "Buffer \<Rightarrow> nat \<Rightarrow> error + nat" where
  "readUInt8 buf off =
     (if off < length buf then Inr (unat (buf ! off)) else Inl TruncatedInput)"

text \<open>Big-endian value of a byte sequence.\<close>

definition be_value :: "Buffer \<Rightarrow> nat" where
  "be_value bs = foldl (\<lambda>acc b. acc * 256 + unat b) 0 bs"

text \<open>
  \<open>buf.slice(start, end)\<close> never throws: both ends are clamped to the length of the
  buffer, and the result is empty when nothing is left.
\<close>

definition Buffer_slice :: "Buffer \<Rightarrow> nat \<Rightarrow> nat \<Rightarrow> Buffer" where
  "Buffer_slice buf s e = take (e - s) (drop s buf)"

text \<open>\<open>buf.readUIntBE(offset, byteLength)\<close>: throws unless all bytes are inside.\<close>

definition readUIntBE :: "Buffer \<Rightarrow> nat \<Rightarrow> nat \<Rightarrow> error + nat" where
  "readUIntBE buf off n =
     (if off + n \<le> length buf then Inr (be_value (Buffer_slice buf off (off + n)))
      else Inl TruncatedInput)"

text \<open>\<open>Buffer.alloc(n)\<close>: \<open>n\<close> zero bytes.\<close>

definition Buffer_alloc :: "nat \<Rightarrow> Buffer" where
  "Buffer_alloc n = replicate n 0"

text \<open>
  \<open>source.copy(target, targetStart, sourceStart, sourceEnd)\<close>, returning the target
  after the copy: it throws when \<open>sourceStart\<close> lies beyond the source, and copies as
  many bytes as the source has and the target has room for.
\<close>

definition Buffer_copy :: "Buffer \<Rightarrow> Buffer \<Rightarrow> nat \<Rightarrow> nat \<Rightarrow> nat \<Rightarrow> error + Buffer" where
  "Buffer_copy source target targetStart sourceStart sourceEnd =
     (if length source < sourceStart then Inl TruncatedInput
      else
        let nb = min (min (sourceEnd - sourceStart) (length target - targetStart))
                     (length source - sourceStart)
        in Inr (take targetStart target @ take nb (drop sourceStart source)
                @ drop (targetStart + nb) target))"

section \<open>The variable-length integer codec\<close>

text \<open>
  Modelled from the spec: the class \<open>VLIE\<close> (imported from \<open>crypto/vlie\<close>) is not
  among the source files. Section 4.1 of the specification: decoding reads the first
  byte at the offset; its top two bits select the encoded length 1, 2, 4 or 8; that
  many bytes are read, the top two bits of the first are masked out and the rest is a
  big-endian unsigned integer; it fails with \<open>TruncatedInput\<close> when fewer bytes
  remain. Encoding chooses the smallest length that holds the value (6, 14, 30 or 62
  usable bits), fails with \<open>ValueTooLarge\<close> beyond 62 bits, and writes the length
  selector into the top two bits of the first byte. The specification does not say
  which selector stands for which length; the model takes the selectors 0, 1, 2 and 3
  for the lengths 1, 2, 4 and 8, in this order, for the encoder and the decoder alike.
\<close>

record VLIEOffset =
  vlie_value :: nat
  vlie_offset :: nat

definition VLIE_decode :: "Buffer \<Rightarrow> nat \<Rightarrow> error + VLIEOffset" where
  "VLIE_decode buf off =
     (if length buf \<le> off then Inl TruncatedInput
      else
        let first = buf ! off;
            L = 2 ^ unat (drop_bit 6 first)
        in if length buf < off + L then Inl TruncatedInput
           else Inr \<lparr> vlie_value = be_value ((first AND 0x3F) # Buffer_slice buf (off + 1) (off + L)),
                      vlie_offset = off + L \<rparr>)"

definition VLIE_getEncodedByteLength :: "nat \<Rightarrow> nat" where
  "VLIE_getEncodedByteLength v =
     (if v < 2 ^ 6 then 1 else if v < 2 ^ 14 then 2 else if v < 2 ^ 30 then 4 else 8)"

text \<open>The \<open>n\<close> low-order bytes of a number, most significant first.\<close>

fun be_bytes :: "nat \<Rightarrow> nat \<Rightarrow> Buffer" where
  "be_bytes 0 v = []"
| "be_bytes (Suc n) v = be_bytes n (v div 256) @ [of_nat (v mod 256)]"

definition length_selector :: "nat \<Rightarrow> byte" where
  "length_selector L = (if L = 1 then 0 else if L = 2 then 1 else if L = 4 then 2 else 3)"

definition VLIE_encode :: "nat \<Rightarrow> error + Buffer" where
  "VLIE_encode v =
     (if 2 ^ 62 \<le> v then Inl ValueTooLarge
      else
        let L = VLIE_getEncodedByteLength v;
            bytes = be_bytes L v
        in Inr ((hd bytes OR push_bit 6 (length_selector L)) # tl bytes))"

section \<open>Headers\<close>

text \<open>
  Modelled from the spec: the wire value classes \<open>Version\<close>, \<open>ConnectionID\<close> and
  \<open>PacketNumber\<close> (imported from \<open>packet/header/header.properties\<close>) are not among
  the source files. Sections 3 and 4.2 of the specification: each wraps a byte slice
  and validates only its own invariant, failing with \<open>InvalidFieldLength\<close> otherwise.
  A version is exactly 4 bytes; a connection ID is constructed with a length that is 0
  or between 4 and 18; a packet number has a width that its context determines and
  nothing to validate. The datatypes are the values; \<open>new_Version\<close> and
  \<open>new_ConnectionID\<close> are the constructors of the classes, which the parser calls.
\<close>

datatype Version = Version Buffer
datatype ConnectionID = ConnectionID Buffer nat
datatype PacketNumber = PacketNumber Buffer

definition new_Version :: "Buffer \<Rightarrow> error + Version" where
  "new_Version b = (if length b = 4 then Inr (Version b) else Inl InvalidFieldLength)"

definition valid_cid_length :: "nat \<Rightarrow> bool" where
  "valid_cid_length len = (len = 0 \<or> (4 \<le> len \<and> len \<le> 18))"

definition new_ConnectionID :: "Buffer \<Rightarrow> nat \<Rightarrow> error + ConnectionID" where
  "new_ConnectionID b len =
     (if valid_cid_length len then Inr (ConnectionID b len) else Inl InvalidFieldLength)"

text \<open>
  The header classes \<open>LongHeader\<close> and \<open>ShortHeader\<close> are not among the source files
  either; each is the record of the arguments that its constructor receives, with the
  raw header bytes that \<open>setParsedBuffer\<close> stores.
\<close>

record LongHeader =
  lh_type :: int
  lh_destConnectionID :: ConnectionID
  lh_srcConnectionID :: ConnectionID
  lh_packetNumber :: "PacketNumber option"
  lh_payloadLength :: "nat option"
  lh_version :: Version
  lh_parsedBuffer :: Buffer

record ShortHeader =
  sh_type :: nat
  sh_destConnectionID :: ConnectionID
  sh_packetNumber :: PacketNumber
  sh_keyPhaseBit :: bool
  sh_spinBit :: bool
  sh_parsedBuffer :: Buffer

datatype BaseHeader = Long LongHeader | Short ShortHeader

datatype HeaderType = HeaderType_LongHeader | HeaderType_ShortHeader

fun getHeaderType :: "BaseHeader \<Rightarrow> HeaderType" where
  "getHeaderType (Long h) = HeaderType_LongHeader"
| "getHeaderType (Short h) = HeaderType_ShortHeader"

fun getParsedBuffer :: "BaseHeader \<Rightarrow> Buffer" where
  "getParsedBuffer (Long h) = lh_parsedBuffer h"
| "getParsedBuffer (Short h) = sh_parsedBuffer h"

fun getPayloadLength :: "BaseHeader \<Rightarrow> nat option" where
  "getPayloadLength (Long h) = lh_payloadLength h"
| "getPayloadLength (Short h) = None"

record HeaderOffset =
  header :: BaseHeader
  offset :: nat

text \<open>
  Modelled from the spec: the enumeration of short-header packet-number widths
  (\<open>ShortHeaderType\<close>, imported from \<open>packet/header/short.header\<close>) is not among the
  source files. Section 8 of the specification gives its three members the selector
  values 0, 1 and 2, in agreement with the \<open>1 << type\<close> by which the parser advances.
\<close>

definition OneOctet :: nat where "OneOctet = 0"

definition TwoOctet :: nat where "TwoOctet = 1"

definition FourOctet :: nat where "FourOctet = 2"

section \<open>The header parser\<close>

definition correctShortHeaderType :: "nat \<Rightarrow> nat" where
  "correctShortHeaderType type = type AND 0x3"

definition getShortHeaderPacketNumber :: "nat \<Rightarrow> Buffer \<Rightarrow> nat \<Rightarrow> error + PacketNumber" where
  "getShortHeaderPacketNumber type buffer off =
     (if type = OneOctet then Inr (PacketNumber (Buffer_slice buffer off (off + 1)))
      else if type = TwoOctet then Inr (PacketNumber (Buffer_slice buffer off (off + 2)))
      else if type = FourOctet then Inr (PacketNumber (Buffer_slice buffer off (off + 4)))
      else Inl InvalidPacketNumberWidth)"

text \<open>
  The source also reads three reserved bits of the type byte into local variables;
  nothing uses them, since the check on them is commented out.
\<close>

definition parseShortHeader :: "Buffer \<Rightarrow> nat \<Rightarrow> error + HeaderOffset" where
  "parseShortHeader buf off =
     (let startOffset = off in
      case readUIntBE buf off 1 of Inl e \<Rightarrow> Inl e | Inr type0 \<Rightarrow>
     (let off1 = off + 1;
          keyPhaseBit = (type0 AND 0x40 = 0x40);
          spinBit = (type0 AND 0x04 = 0x04);
          type = correctShortHeaderType type0
      in
      case readUInt8 buf off1 of Inl e \<Rightarrow> Inl e | Inr destLen \<Rightarrow>
     (case Buffer_copy buf (Buffer_alloc destLen) 0 off1 (off1 + destLen) of
        Inl e \<Rightarrow> Inl e | Inr destConIDBuffer \<Rightarrow>
     (case new_ConnectionID destConIDBuffer destLen of
        Inl e \<Rightarrow> Inl e | Inr destConnectionID \<Rightarrow>
     (let off2 = off1 + destLen
      in
      case getShortHeaderPacketNumber type buf off2 of Inl e \<Rightarrow> Inl e | Inr packetNumber \<Rightarrow>
     (let off3 = off2 + push_bit type 1;
          parsedBuffer = Buffer_slice buf startOffset off3
      in Inr \<lparr> header = Short \<lparr> sh_type = type, sh_destConnectionID = destConnectionID,
                                 sh_packetNumber = packetNumber, sh_keyPhaseBit = keyPhaseBit,
                                 sh_spinBit = spinBit, sh_parsedBuffer = parsedBuffer \<rparr>,
               offset = off3 \<rparr>))))))"

text \<open>The connection-ID length that a four-bit length class stands for.\<close>

definition cid_length :: "nat \<Rightarrow> nat" where
  "cid_length c = (if c = 0 then c else c + 3)"

text \<open>
  The version validator (\<open>VersionValidation.IsVersionNegotationFlag\<close>) is an external
  collaborator; the parser takes it as the parameter \<open>vn\<close>.
\<close>

definition parseLongHeader :: "(Version \<Rightarrow> bool) \<Rightarrow> Buffer \<Rightarrow> nat \<Rightarrow> error + HeaderOffset" where
  "parseLongHeader vn buf off =
     (let startOffset = off in
      case readUInt8 buf off of Inl e \<Rightarrow> Inl e | Inr b \<Rightarrow>
     (let type = int b - 0x80;
          off1 = off + 1
      in
      case new_Version (Buffer_slice buf off1 (off1 + 4)) of Inl e \<Rightarrow> Inl e | Inr version \<Rightarrow>
     (let off2 = off1 + 4
      in
      case readUInt8 buf off2 of Inl e \<Rightarrow> Inl e | Inr conLengths \<Rightarrow>
     (let off3 = off2 + 1;
          destLength = cid_length (drop_bit 4 conLengths);
          srcLength = cid_length (conLengths AND 0xF)
      in
      case new_ConnectionID (Buffer_slice buf off3 (off3 + destLength)) destLength of
        Inl e \<Rightarrow> Inl e | Inr destConnectionID \<Rightarrow>
     (let off4 = off3 + destLength
      in
      case new_ConnectionID (Buffer_slice buf off4 (off4 + srcLength)) srcLength of
        Inl e \<Rightarrow> Inl e | Inr srcConnectionID \<Rightarrow>
     (let off5 = off4 + srcLength
      in
      if \<not> vn version then
       (case VLIE_decode buf off5 of Inl e \<Rightarrow> Inl e | Inr vlieOffset \<Rightarrow>
       (let payloadLength = vlie_value vlieOffset;
            off6 = vlie_offset vlieOffset;
            packetNumber = PacketNumber (Buffer_slice buf off6 (off6 + 4));
            off7 = off6 + 4
        in Inr \<lparr> header = Long \<lparr> lh_type = type, lh_destConnectionID = destConnectionID,
                                  lh_srcConnectionID = srcConnectionID,
                                  lh_packetNumber = Some packetNumber,
                                  lh_payloadLength = Some payloadLength,
                                  lh_version = version,
                                  lh_parsedBuffer = Buffer_slice buf startOffset off7 \<rparr>,
                 offset = off7 \<rparr>))
      else
        Inr \<lparr> header = Long \<lparr> lh_type = type, lh_destConnectionID = destConnectionID,
                               lh_srcConnectionID = srcConnectionID,
                               lh_packetNumber = None,
                               lh_payloadLength = None,
                               lh_version = version,
                               lh_parsedBuffer = Buffer_slice buf startOffset off5 \<rparr>,
              offset = off5 \<rparr>))))))"

definition parseHeader :: "(Version \<Rightarrow> bool) \<Rightarrow> Buffer \<Rightarrow> nat \<Rightarrow> error + HeaderOffset" where
  "parseHeader vn buf off =
     (case readUIntBE buf off 1 of Inl e \<Rightarrow> Inl e | Inr type \<Rightarrow>
     (if type AND 0x80 = 0x80 then parseLongHeader vn buf off
      else parseShortHeader buf off))"

section \<open>Splitting a datagram\<close>

text \<open>
  The state of the loop in \<open>parse\<close>: the list built so far, the header parsed last
  and the cumulative size, which the source keeps in an arbitrary-precision integer.
\<close>

record parse_state =
  headerOffsets :: "HeaderOffset list"
  headerOffset :: HeaderOffset
  totalSize :: int

datatype outcome = Next parse_state | Break parse_state | Throw error

definition loop_cond :: "parse_state \<Rightarrow> bool" where
  "loop_cond s =
     (getHeaderType (header (headerOffset s)) = HeaderType_LongHeader
      \<and> getPayloadLength (header (headerOffset s)) \<noteq> None)"

text \<open>
  One pass through the body of the loop. \<open>totalSize.toNumber()\<close> is handed to
  \<open>parseHeader\<close> as the offset; a negative offset is outside the buffer.
\<close>

definition loop_body :: "(Version \<Rightarrow> bool) \<Rightarrow> Buffer \<Rightarrow> parse_state \<Rightarrow> outcome" where
  "loop_body vn buf s =
     (let payloadLength = getPayloadLength (header (headerOffset s));
          headerSize = int (offset (headerOffset s)) - totalSize s;
          totalSize' = (case payloadLength of
                          Some p \<Rightarrow> totalSize s + int p + headerSize
                        | None \<Rightarrow> totalSize s)
      in if totalSize' < int (length buf) then
           (if totalSize' < 0 then Throw TruncatedInput
            else case parseHeader vn buf (nat totalSize') of
                   Inl e \<Rightarrow> Throw e
                 | Inr ho \<Rightarrow> Next \<lparr> headerOffsets = headerOffsets s @ [ho],
                                     headerOffset = ho, totalSize = totalSize' \<rparr>)
         else Break (s\<lparr> totalSize := totalSize' \<rparr>))"

text \<open>
  The bytes of the buffer that lie behind the packet parsed last: the payload-start
  offset of the header plus the payload length that it declares.
\<close>

definition remaining :: "Buffer \<Rightarrow> parse_state \<Rightarrow> nat" where
  "remaining buf s =
     nat (int (length buf) - (int (offset (headerOffset s)) +
       int (case getPayloadLength (header (headerOffset s)) of Some p \<Rightarrow> p | None \<Rightarrow> 0)))"

section \<open>Names for the fields of the wire format\<close>

text \<open>
  The values of the local variables of \<open>parseLongHeader\<close> as functions of the buffer
  and the offset at which the header starts: the two connection-ID lengths, the
  offset right after the source connection ID, and the version.
\<close>

definition destLength :: "Buffer \<Rightarrow> nat \<Rightarrow> nat" where
  "destLength buf off = cid_length (drop_bit 4 (unat (buf ! (off + 5))))"

definition srcLength :: "Buffer \<Rightarrow> nat \<Rightarrow> nat" where
  "srcLength buf off = cid_length (unat (buf ! (off + 5)) AND 0xF)"

definition ids_end :: "Buffer \<Rightarrow> nat \<Rightarrow> nat" where
  "ids_end buf off = off + 6 + destLength buf off + srcLength buf off"

definition long_version :: "Buffer \<Rightarrow> nat \<Rightarrow> Version" where
  "long_version buf off = Version (Buffer_slice buf (off + 1) (off + 5))"

text \<open>
  The same for \<open>parseShortHeader\<close>: the connection-ID length read from the byte after
  the type byte, the width selector, and the offset at which the packet number starts.
\<close>

definition short_destLen :: "Buffer \<Rightarrow> nat \<Rightarrow> nat" where
  "short_destLen buf off = unat (buf ! (off + 1))"

definition short_type :: "Buffer \<Rightarrow> nat \<Rightarrow> nat" where
  "short_type buf off = correctShortHeaderType (unat (buf ! off))"

definition pn_start :: "Buffer \<Rightarrow> nat \<Rightarrow> nat" where
  "pn_start buf off = off + 1 + short_destLen buf off"

fun pn_bytes :: "PacketNumber \<Rightarrow> Buffer" where
  "pn_bytes (PacketNumber b) = b"

fun cid_bytes :: "ConnectionID \<Rightarrow> Buffer" where
  "cid_bytes (ConnectionID b n) = b"

text \<open>
  Modelled from the spec: the validator \<open>VersionValidation.IsVersionNegotationFlag\<close>
  is not among the source files. Section 3 of the specification gives the
  version-negotiation indicator as the all-zero wire pattern. The parser is verified
  for every validator; this one serves where a concrete one is needed.
\<close>

definition IsVersionNegotationFlag :: "Version \<Rightarrow> bool" where
  "IsVersionNegotationFlag v = (v = Version [0, 0, 0, 0])"

text \<open>
  Example datagrams: two long-header packets, a long-header packet followed by a
  version negotiation, and a long-header packet followed by a short-header packet.
\<close>

definition two_long_packets :: Buffer where
  "two_long_packets =
     [0xFF, 0, 0, 0, 1, 0x00, 0x01, 0, 0, 0, 1, 0xAA,
      0xFF, 0, 0, 0, 1, 0x00, 0x00, 0, 0, 0, 2]"

definition long_then_negotiation :: Buffer where
  "long_then_negotiation =
     [0xFF, 0, 0, 0, 1, 0x00, 0x00, 0, 0, 0, 1,
      0x80, 0, 0, 0, 0, 0x00]"


section \<open>Termination of the loop\<close>

lemma VLIE_decode_offset: "VLIE_decode buf off = Inr v \<Longrightarrow> off < vlie_offset v"
  by (auto simp: VLIE_decode_def Let_def split: if_splits)

lemma parseLongHeader_offset: "parseLongHeader vn buf off = Inr ho \<Longrightarrow> off < offset ho"
  by (auto simp: parseLongHeader_def new_Version_def new_ConnectionID_def valid_cid_length_def Let_def readUInt8_def
           split: if_splits sum.splits dest: VLIE_decode_offset)

lemma parseShortHeader_offset: "parseShortHeader buf off = Inr ho \<Longrightarrow> off < offset ho"
  by (auto simp: parseShortHeader_def new_ConnectionID_def valid_cid_length_def Let_def split: if_splits sum.splits)

lemma parseHeader_offset: "parseHeader vn buf off = Inr ho \<Longrightarrow> off < offset ho"
  by (auto simp: parseHeader_def split: if_splits sum.splits
           dest: parseLongHeader_offset parseShortHeader_offset)

lemma loop_body_decreases:
  "loop_cond s \<Longrightarrow> loop_body vn buf s = Next s' \<Longrightarrow> remaining buf s' < remaining buf s"
  by (auto simp: loop_cond_def loop_body_def remaining_def Let_def
           split: if_splits sum.splits option.splits dest!: parseHeader_offset)

function parse_loop :: "(Version \<Rightarrow> bool) \<Rightarrow> Buffer \<Rightarrow> parse_state \<Rightarrow> error + HeaderOffset list" where
  "parse_loop vn buf s =
     (if loop_cond s then
        (case loop_body vn buf s of
           Next s' \<Rightarrow> parse_loop vn buf s'
         | Break s' \<Rightarrow> Inr (headerOffsets s')
         | Throw e \<Rightarrow> Inl e)
      else Inr (headerOffsets s))"
  by pat_completeness auto

termination
  by (relation "measure (\<lambda>(vn, buf, s). remaining buf s)") (auto dest: loop_body_decreases)

declare parse_loop.simps [simp del]

definition parse :: "(Version \<Rightarrow> bool) \<Rightarrow> Buffer \<Rightarrow> error + HeaderOffset list" where
  "parse vn buf =
     (case parseHeader vn buf 0 of
        Inl e \<Rightarrow> Inl e
      | Inr ho \<Rightarrow> parse_loop vn buf \<lparr> headerOffsets = [ho], headerOffset = ho, totalSize = 0 \<rparr>)"

section \<open>Facts about the buffer primitives\<close>

lemma be_value_single [simp]: "be_value [b] = unat b"
  by (simp add: be_value_def)

lemma readUIntBE_1 [simp]: "readUIntBE buf off (Suc 0) = readUInt8 buf off"
  by (auto simp: readUIntBE_def readUInt8_def Buffer_slice_def take_Suc hd_drop_conv_nth)

lemma nat_and_3: "(n::nat) AND 3 = n mod 4"
proof -
  have "(3::nat) = mask 2" by (simp add: mask_eq_exp_minus_1)
  then have "n AND 3 = take_bit 2 n" by (simp add: take_bit_eq_mask)
  then show ?thesis by (simp add: take_bit_eq_mod)
qed

lemma and3_cases: "(n::nat) AND 3 = 0 \<or> n AND 3 = 1 \<or> n AND 3 = 2 \<or> n AND 3 = 3"
  unfolding nat_and_3 by arith

lemma length_Buffer_slice: "length (Buffer_slice buf s e) = min (e - s) (length buf - s)"
  by (simp add: Buffer_slice_def)

lemma nat_and_15: "(n::nat) AND 15 = n mod 16"
proof -
  have "(15::nat) = mask 4" by (simp add: mask_eq_exp_minus_1)
  then have "n AND 15 = take_bit 4 n" by (simp add: take_bit_eq_mask)
  then show ?thesis by (simp add: take_bit_eq_mod)
qed

lemma nat_drop_bit_4: "drop_bit 4 (n::nat) = n div 16"
  by (simp add: drop_bit_eq_div)

lemma Buffer_slice_nth: "Buffer_slice buf s e = map (nth buf) [s..<min e (length buf)]"
proof (rule nth_equalityI)
  show "length (Buffer_slice buf s e) = length (map (nth buf) [s..<min e (length buf)])"
    by (auto simp: Buffer_slice_def)
next
  fix i assume "i < length (Buffer_slice buf s e)"
  then have i: "i < e - s" "i < length buf - s" by (simp_all add: Buffer_slice_def)
  then have "s + i < min e (length buf)" by (simp add: less_diff_conv add.commute)
  then have "[s..<min e (length buf)] ! i = s + i" by (rule nth_upt)
  with i show "Buffer_slice buf s e ! i = map (nth buf) [s..<min e (length buf)] ! i"
    by (simp add: Buffer_slice_def)
qed

lemma Buffer_slice_take: "e \<le> n \<Longrightarrow> Buffer_slice (take n buf) s e = Buffer_slice buf s e"
  by (simp add: Buffer_slice_def drop_take min_def)

lemma Buffer_copy_alloc:
  "s \<le> length buf \<Longrightarrow> e = s + d \<Longrightarrow>
   Buffer_copy buf (Buffer_alloc d) 0 s e
     = Inr (Buffer_slice buf s e @ replicate (d - (length buf - s)) 0)"
  by (auto simp: Buffer_copy_def Buffer_alloc_def Buffer_slice_def min_def)






section \<open>The variable-length integer codec: round trip\<close>

lemma VLIE_decode_fails:
  "VLIE_decode buf off = Inl e \<longleftrightarrow>
     e = TruncatedInput
     \<and> (length buf \<le> off \<or> length buf < off + 2 ^ unat (drop_bit 6 (buf ! off)))"
  by (auto simp: VLIE_decode_def Let_def)

lemma VLIE_decode_offset_le: "VLIE_decode buf off = Inr v \<Longrightarrow> vlie_offset v \<le> length buf"
  by (auto simp: VLIE_decode_def Let_def split: if_splits)


lemma length_be_bytes [simp]: "length (be_bytes n v) = n"
  by (induction n arbitrary: v) simp_all

lemma be_value_snoc: "be_value (bs @ [b]) = be_value bs * 256 + unat b"
  by (simp add: be_value_def)

lemma be_value_be_bytes: "be_value (be_bytes n v) = v mod 256 ^ n"
proof (induction n arbitrary: v)
  case 0
  show ?case by (simp add: be_value_def)
next
  case (Suc n)
  have "unat (of_nat (v mod 256) :: byte) = v mod 256"
    by (simp add: unat_of_nat)
  then have "be_value (be_bytes (Suc n) v) = (v div 256) mod 256 ^ n * 256 + v mod 256"
    by (simp add: be_value_snoc Suc.IH)
  also have "\<dots> = v mod 256 ^ Suc n"
    by (simp add: mod_mult2_eq mult.commute)
  finally show ?case .
qed

lemma be_value_Cons: "be_value (b # bs) = unat b * 256 ^ length bs + be_value bs"
proof (induction bs arbitrary: b rule: rev_induct)
  case Nil
  show ?case by (simp add: be_value_def)
next
  case (snoc x xs)
  have "be_value (b # xs @ [x]) = be_value ((b # xs) @ [x])" by simp
  also have "\<dots> = be_value (b # xs) * 256 + unat x" by (rule be_value_snoc)
  also have "\<dots> = (unat b * 256 ^ length xs + be_value xs) * 256 + unat x" by (simp add: snoc.IH)
  also have "\<dots> = unat b * 256 ^ length (xs @ [x]) + be_value (xs @ [x])"
    by (simp add: be_value_snoc algebra_simps)
  finally show ?case .
qed

lemma word_or_selector:
  fixes w s :: byte
  assumes "w < 64" "s < 4"
  shows "drop_bit 6 (w OR push_bit 6 s) = s" "(w OR push_bit 6 s) AND 0x3F = w"
proof -
  have w: "take_bit 6 w = w" using less_mask_eq [of w 6] assms(1) by (simp add: take_bit_eq_mask)
  have s: "take_bit 2 s = s" using less_mask_eq [of s 2] assms(2) by (simp add: take_bit_eq_mask)
  have "drop_bit 6 (take_bit 6 w OR push_bit 6 (take_bit 2 s)) = take_bit 2 s"
    by (rule bit_word_eqI) (auto simp: bit_simps)
  then show "drop_bit 6 (w OR push_bit 6 s) = s" by (simp add: w s)
  have m: "(0x3F :: byte) = mask 6" by (simp add: mask_eq_exp_minus_1)
  have "take_bit 6 (take_bit 6 w OR push_bit 6 (take_bit 2 s)) = take_bit 6 w"
    by (rule bit_word_eqI) (auto simp: bit_simps)
  then show "(w OR push_bit 6 s) AND 0x3F = w"
    unfolding m by (simp add: w s take_bit_eq_mask [symmetric])
qed

lemma VLIE_decode_Cons0:
  "VLIE_decode (f # rest) 0 =
     (if Suc (length rest) < 2 ^ unat (drop_bit 6 f) then Inl TruncatedInput
      else Inr \<lparr> vlie_value = be_value ((f AND 0x3F) # take (2 ^ unat (drop_bit 6 f) - 1) rest),
                 vlie_offset = 2 ^ unat (drop_bit 6 f) \<rparr>)"
  by (simp add: VLIE_decode_def Let_def Buffer_slice_def)

lemma length_selector_props:
  assumes "L = 1 \<or> L = 2 \<or> L = 4 \<or> L = 8"
  shows "length_selector L < 4" "2 ^ unat (length_selector L) = L"
  using assms by (auto simp: length_selector_def)

lemma decode_encoded:
  assumes L: "L = 1 \<or> L = 2 \<or> L = 4 \<or> L = 8" and v: "v < 64 * 256 ^ (L - 1)"
  shows "VLIE_decode ((hd (be_bytes L v) OR push_bit 6 (length_selector L)) # tl (be_bytes L v)) 0
           = Inr \<lparr> vlie_value = v, vlie_offset = L \<rparr>"
proof -
  let ?bytes = "be_bytes L v"
  from L have L0: "0 < L" by auto
  then have ne: "?bytes \<noteq> []" by (simp flip: length_greater_0_conv)
  then have split: "?bytes = hd ?bytes # tl ?bytes" by simp
  have lt: "length (tl ?bytes) = L - 1" by simp
  have "64 * 256 ^ (L - 1) \<le> (256::nat) * 256 ^ (L - 1)" by simp
  also have "\<dots> = 256 ^ Suc (L - 1)" by simp
  also have "\<dots> = 256 ^ L" using L0 by simp
  finally have "v < 256 ^ L" using v by simp
  then have val: "be_value ?bytes = v" by (simp add: be_value_be_bytes)
  have "be_value (hd ?bytes # tl ?bytes) = unat (hd ?bytes) * 256 ^ (L - 1) + be_value (tl ?bytes)"
    by (simp add: be_value_Cons)
  with val split have "v = unat (hd ?bytes) * 256 ^ (L - 1) + be_value (tl ?bytes)" by simp
  with v have "unat (hd ?bytes) * 256 ^ (L - 1) < 64 * 256 ^ (L - 1)" by linarith
  then have "unat (hd ?bytes) < 64" by simp
  then have hd64: "hd ?bytes < 64" by (simp add: word_less_nat_alt)
  note sel = length_selector_props [OF L]
  define f where "f = hd ?bytes OR push_bit 6 (length_selector L)"
  have f1: "drop_bit 6 f = length_selector L" and f2: "f AND 0x3F = hd ?bytes"
    unfolding f_def using word_or_selector [OF hd64 sel(1)] by simp_all
  have v': "be_value (hd ?bytes # tl ?bytes) = v" using val split by simp
  have "VLIE_decode (f # tl ?bytes) 0 = Inr \<lparr> vlie_value = v, vlie_offset = L \<rparr>"
    using L0 by (simp add: VLIE_decode_Cons0 f1 f2 sel v' del: be_bytes.simps)
  then show ?thesis by (simp only: f_def)
qed

lemma encoded_length_cases:
  obtains "v < 2 ^ 6" "VLIE_getEncodedByteLength v = 1"
    | "2 ^ 6 \<le> v" "v < 2 ^ 14" "VLIE_getEncodedByteLength v = 2"
    | "2 ^ 14 \<le> v" "v < 2 ^ 30" "VLIE_getEncodedByteLength v = 4"
    | "2 ^ 30 \<le> v" "VLIE_getEncodedByteLength v = 8"
  unfolding VLIE_getEncodedByteLength_def by (cases "v < 2 ^ 6"; cases "v < 2 ^ 14"; cases "v < 2 ^ 30") auto

lemma encoded_length_fits:
  assumes "v < 2 ^ 62"
  shows "v < 64 * 256 ^ (VLIE_getEncodedByteLength v - 1)"
  by (insert assms, rule encoded_length_cases [of v]) simp_all

lemma encoded_length_minimal:
  assumes "L = 1 \<or> L = 2 \<or> L = 4 \<or> L = 8" "v < 2 ^ (8 * L - 2)"
  shows "VLIE_getEncodedByteLength v \<le> L"
  by (insert assms, rule encoded_length_cases [of v]) auto

text \<open>
  Claim C10. For every value \<open>v\<close> representable in 62 bits, encoding succeeds, and
  decoding the encoding from offset 0 yields \<open>v\<close> and the length of the encoding as
  the new offset. The encoding is canonical: its length is the encoded length of
  \<open>v\<close>, one of 1, 2, 4 and 8, it holds \<open>v\<close>, and no shorter one of the four forms
  does.
\<close>

theorem varint_round_trip:
  assumes "v < 2 ^ 62"
  shows "\<exists>b. VLIE_encode v = Inr b
           \<and> VLIE_decode b 0 = Inr \<lparr> vlie_value = v, vlie_offset = length b \<rparr>
           \<and> length b = VLIE_getEncodedByteLength v
           \<and> length b \<in> {1, 2, 4, 8}
           \<and> v < 2 ^ (8 * length b - 2)
           \<and> (\<forall>L \<in> {1, 2, 4, 8}. v < 2 ^ (8 * L - 2) \<longrightarrow> length b \<le> L)"
proof -
  let ?L = "VLIE_getEncodedByteLength v"
  let ?b = "(hd (be_bytes ?L v) OR push_bit 6 (length_selector ?L)) # tl (be_bytes ?L v)"
  have L: "?L = 1 \<or> ?L = 2 \<or> ?L = 4 \<or> ?L = 8"
    by (rule encoded_length_cases [of v]) simp_all
  have enc: "VLIE_encode v = Inr ?b"
    using assms by (simp add: VLIE_encode_def Let_def del: be_bytes.simps)
  have len: "length ?b = ?L" using L by auto
  have dec: "VLIE_decode ?b 0 = Inr \<lparr> vlie_value = v, vlie_offset = length ?b \<rparr>"
    unfolding len by (rule decode_encoded [OF L encoded_length_fits [OF assms]])
  have fit: "v < 2 ^ (8 * ?L - 2)"
    by (insert assms, rule encoded_length_cases [of v]) simp_all
  have minimal: "\<forall>L \<in> {1, 2, 4, 8}. v < 2 ^ (8 * L - 2) \<longrightarrow> ?L \<le> L"
    using encoded_length_minimal [of _ v] by blast
  have mem: "?L \<in> {1, 2, 4, 8}" using L by auto
  from enc dec len fit minimal mem show ?thesis
    by (intro exI [of _ ?b]) (simp only: len simp_thms)
qed

lemma be_bytes_2: "be_bytes 2 v = [of_nat (v div 256 mod 256), of_nat (v mod 256)]"
  by (simp add: numeral_2_eq_2)

theorem varint_round_trip_witness:
  "VLIE_encode 15293 = Inr [0x7B, 0xBD]
   \<and> VLIE_decode [0x7B, 0xBD] 0 = Inr \<lparr> vlie_value = 15293, vlie_offset = 2 \<rparr>
   \<and> VLIE_getEncodedByteLength 15293 = 2"
  using varint_round_trip [of 15293]
  by (simp add: VLIE_encode_def VLIE_getEncodedByteLength_def VLIE_decode_def Buffer_slice_def
        be_value_def length_selector_def be_bytes_2 Let_def)

section \<open>Dispatch on the first byte\<close>

lemma parseHeader_long:
  "off < length buf \<Longrightarrow> unat (buf ! off) AND 0x80 = 0x80 \<Longrightarrow>
   parseHeader vn buf off = parseLongHeader vn buf off"
  by (simp add: parseHeader_def readUInt8_def)

lemma parseHeader_short:
  "off < length buf \<Longrightarrow> unat (buf ! off) AND 0x80 \<noteq> 0x80 \<Longrightarrow>
   parseHeader vn buf off = parseShortHeader buf off"
  by (simp add: parseHeader_def readUInt8_def)

lemma parseHeader_empty: "length buf \<le> off \<Longrightarrow> parseHeader vn buf off = Inl TruncatedInput"
  by (simp add: parseHeader_def readUInt8_def)

section \<open>Long headers\<close>

text \<open>The length classes of a lengths byte always give lengths that a connection ID accepts.\<close>

lemma nat_and_15_commute: "(15::nat) AND n = n mod 16"
  by (simp add: and.commute nat_and_15)

lemma cid_length_valid_hi: "valid_cid_length (cid_length (drop_bit 4 (unat (w :: byte))))"
proof -
  have "unat w < 256" using unsigned_less [of w] by simp
  then have "unat w div 16 < 16" by simp
  then show ?thesis by (auto simp: valid_cid_length_def cid_length_def nat_drop_bit_4)
qed

lemma cid_length_valid_lo: "valid_cid_length (cid_length (unat (w :: byte) AND 0xF))"
proof -
  have "unat w mod 16 < 16" by simp
  then show ?thesis by (auto simp: valid_cid_length_def cid_length_def nat_and_15)
qed

lemma cid_length_valid_lo': "valid_cid_length (cid_length (0xF AND unat (w :: byte)))"
  using cid_length_valid_lo [of w] by (simp add: and.commute)

lemma destLength_valid: "valid_cid_length (destLength buf off)"
  by (simp add: destLength_def cid_length_valid_hi)

lemma srcLength_valid: "valid_cid_length (srcLength buf off)"
  by (simp add: srcLength_def cid_length_valid_lo)

lemmas long_defs = parseLongHeader_def new_Version_def new_ConnectionID_def readUInt8_def Let_def
  length_Buffer_slice cid_length_valid_hi cid_length_valid_lo cid_length_valid_lo'

text \<open>The ways through \<open>parseLongHeader\<close>.\<close>

lemma parseLongHeader_no_first_byte:
  "length buf \<le> off \<Longrightarrow> parseLongHeader vn buf off = Inl TruncatedInput"
  by (simp add: long_defs)

lemma parseLongHeader_short_version:
  "off < length buf \<Longrightarrow> length buf < off + 5 \<Longrightarrow>
   parseLongHeader vn buf off = Inl InvalidFieldLength"
  by (simp add: long_defs)

lemma parseLongHeader_no_lengths_byte:
  "length buf = off + 5 \<Longrightarrow> parseLongHeader vn buf off = Inl TruncatedInput"
  by (simp add: long_defs)

lemma parseLongHeader_negotiation:
  "off + 5 < length buf \<Longrightarrow> vn (long_version buf off) \<Longrightarrow>
   parseLongHeader vn buf off =
     Inr \<lparr> header = Long \<lparr> lh_type = int (unat (buf ! off)) - 0x80,
              lh_destConnectionID =
                ConnectionID (Buffer_slice buf (off + 6) (off + 6 + destLength buf off))
                  (destLength buf off),
              lh_srcConnectionID =
                ConnectionID (Buffer_slice buf (off + 6 + destLength buf off) (ids_end buf off))
                  (srcLength buf off),
              lh_packetNumber = None, lh_payloadLength = None,
              lh_version = long_version buf off,
              lh_parsedBuffer = Buffer_slice buf off (ids_end buf off) \<rparr>,
            offset = ids_end buf off \<rparr>"
  by (simp add: long_defs destLength_def srcLength_def ids_end_def long_version_def ac_simps)

lemma parseLongHeader_regular:
  "off + 5 < length buf \<Longrightarrow> \<not> vn (long_version buf off) \<Longrightarrow>
   parseLongHeader vn buf off =
     (case VLIE_decode buf (ids_end buf off) of
        Inl e \<Rightarrow> Inl e
      | Inr v \<Rightarrow>
     Inr \<lparr> header = Long \<lparr> lh_type = int (unat (buf ! off)) - 0x80,
              lh_destConnectionID =
                ConnectionID (Buffer_slice buf (off + 6) (off + 6 + destLength buf off))
                  (destLength buf off),
              lh_srcConnectionID =
                ConnectionID (Buffer_slice buf (off + 6 + destLength buf off) (ids_end buf off))
                  (srcLength buf off),
              lh_packetNumber =
                Some (PacketNumber (Buffer_slice buf (vlie_offset v) (vlie_offset v + 4))),
              lh_payloadLength = Some (vlie_value v),
              lh_version = long_version buf off,
              lh_parsedBuffer = Buffer_slice buf off (vlie_offset v + 4) \<rparr>,
            offset = vlie_offset v + 4 \<rparr>)"
  by (simp add: long_defs destLength_def srcLength_def ids_end_def long_version_def ac_simps
        split: sum.splits)

lemma parseLongHeader_Inr_length:
  "parseLongHeader vn buf off = Inr ho \<Longrightarrow> off + 5 < length buf"
proof (rule ccontr)
  assume p: "parseLongHeader vn buf off = Inr ho" and n: "\<not> off + 5 < length buf"
  consider "length buf \<le> off" | "off < length buf" "length buf < off + 5" | "length buf = off + 5"
    using n by linarith
  then show False
  proof cases
    case 1 with p show False by (simp add: parseLongHeader_no_first_byte)
  next
    case 2 with p show False by (simp add: parseLongHeader_short_version)
  next
    case 3 with p show False by (simp add: parseLongHeader_no_lengths_byte)
  qed
qed

lemma parseLongHeader_span:
  assumes "parseLongHeader vn buf off = Inr ho"
  shows "ids_end buf off \<le> offset ho
       \<and> (\<exists>h. header ho = Long h \<and> lh_parsedBuffer h = Buffer_slice buf off (offset ho))"
proof -
  have len: "off + 5 < length buf" using assms by (rule parseLongHeader_Inr_length)
  show ?thesis
  proof (cases "vn (long_version buf off)")
    case True
    from parseLongHeader_negotiation [where vn=vn, OF len True] assms show ?thesis by auto
  next
    case False
    from parseLongHeader_regular [where vn=vn, OF len False] assms
    obtain v where v: "VLIE_decode buf (ids_end buf off) = Inr v"
      by (cases "VLIE_decode buf (ids_end buf off)") auto
    from parseLongHeader_regular [where vn=vn, OF len False] assms v VLIE_decode_offset [OF v]
    show ?thesis by auto
  qed
qed



text \<open>
  Claim C7, as the code has it. When a long header is parsed, the byte after the
  version holds the two length classes: the high nibble for the destination, the low
  nibble for the source. Class 0 is length 0 and a class \<open>n > 0\<close> is length
  \<open>n + 3\<close>. For every buffer that reaches this byte, the destination connection ID
  is the slice of that many positions behind the byte and the source connection ID the
  slice of the positions that follow, each holding as many bytes as the buffer has
  there; the next field begins right behind both. A version negotiation parses with
  the offset at that position. Any other header parses exactly when the payload-length
  VarInt at that position decodes, and then both connection IDs hold exactly as many
  bytes as their lengths say.
\<close>

theorem connection_id_lengths:
  assumes "off + 5 < length buf"
  defines "c \<equiv> unat (buf ! (off + 5))"
  defines "dl \<equiv> (if c div 16 = 0 then 0 else c div 16 + 3)"
  defines "sl \<equiv> (if c mod 16 = 0 then 0 else c mod 16 + 3)"
  defines "dest \<equiv> ConnectionID (Buffer_slice buf (off + 6) (off + 6 + dl)) dl"
  defines "src \<equiv> ConnectionID (Buffer_slice buf (off + 6 + dl) (off + 6 + dl + sl)) sl"
  shows "length (cid_bytes dest) = min dl (length buf - (off + 6))
       \<and> length (cid_bytes src) = min sl (length buf - (off + 6 + dl))
       \<and> (if vn (long_version buf off)
          then \<exists>h. parseLongHeader vn buf off
                       = Inr \<lparr> header = Long h, offset = off + 6 + dl + sl \<rparr>
                   \<and> lh_destConnectionID h = dest \<and> lh_srcConnectionID h = src
          else case VLIE_decode buf (off + 6 + dl + sl) of
                 Inl e \<Rightarrow> parseLongHeader vn buf off = Inl e
               | Inr v \<Rightarrow>
                   \<exists>h. parseLongHeader vn buf off
                          = Inr \<lparr> header = Long h, offset = vlie_offset v + 4 \<rparr>
                      \<and> lh_destConnectionID h = dest \<and> lh_srcConnectionID h = src
                      \<and> lh_payloadLength h = Some (vlie_value v)
                      \<and> length (cid_bytes dest) = dl \<and> length (cid_bytes src) = sl)"
proof -
  have dl: "destLength buf off = dl"
    by (simp add: destLength_def dl_def c_def cid_length_def nat_drop_bit_4)
  have sl: "srcLength buf off = sl"
    by (simp add: srcLength_def sl_def c_def cid_length_def nat_and_15)
  have ie: "ids_end buf off = off + 6 + dl + sl"
    by (simp add: ids_end_def dl sl)
  have lens: "length (cid_bytes dest) = min dl (length buf - (off + 6))"
    "length (cid_bytes src) = min sl (length buf - (off + 6 + dl))"
    by (simp_all add: dest_def src_def length_Buffer_slice)
  show ?thesis
  proof (cases "vn (long_version buf off)")
    case True
    from parseLongHeader_negotiation [where vn=vn, OF assms(1) True] lens True show ?thesis
      by (simp add: dl sl ie dest_def src_def)
  next
    case False
    show ?thesis
    proof (cases "VLIE_decode buf (off + 6 + dl + sl)")
      case (Inl e)
      with parseLongHeader_regular [where vn=vn, OF assms(1) False] lens False show ?thesis
        by (simp add: ie)
    next
      case (Inr v)
      from VLIE_decode_offset [OF Inr] VLIE_decode_offset_le [OF Inr]
      have "off + 6 + dl + sl < length buf" by simp
      with parseLongHeader_regular [where vn=vn, OF assms(1) False] lens False Inr show ?thesis
        by (simp add: dl sl ie dest_def src_def)
    qed
  qed
qed

theorem connection_id_lengths_witness:
  "parseLongHeader IsVersionNegotationFlag
      [0xFF, 0,0,0,1, 0x51, 1,2,3,4,5,6,7,8, 9,10,11,12, 0x25, 0,0,0,1] 0
    = Inr \<lparr> header = Long \<lparr> lh_type = 127,
              lh_destConnectionID = ConnectionID [1,2,3,4,5,6,7,8] 8,
              lh_srcConnectionID = ConnectionID [9,10,11,12] 4,
              lh_packetNumber = Some (PacketNumber [0,0,0,1]), lh_payloadLength = Some 37,
              lh_version = Version [0,0,0,1],
              lh_parsedBuffer =
                [0xFF, 0,0,0,1, 0x51, 1,2,3,4,5,6,7,8, 9,10,11,12, 0x25, 0,0,0,1] \<rparr>,
            offset = 23 \<rparr>"
  using connection_id_lengths [of 0 "[0xFF, 0,0,0,1, 0x51, 1,2,3,4,5,6,7,8, 9,10,11,12, 0x25, 0,0,0,1]"
      IsVersionNegotationFlag]
  by (simp add: parseLongHeader_def new_Version_def new_ConnectionID_def valid_cid_length_def
        readUInt8_def Buffer_slice_def VLIE_decode_def be_value_def cid_length_def
        IsVersionNegotationFlag_def Let_def)

text \<open>
  Claim C7 as stated says that exactly as many bytes as the lengths say are consumed
  for the two connection IDs. In this version negotiation the lengths byte \<open>0x51\<close>
  says 8 and 4, the buffer ends after five bytes of the destination connection ID, and
  parsing succeeds: the destination connection ID holds five bytes, the source
  connection ID none, and the returned offset 18 lies beyond the 11 bytes of the
  buffer.
\<close>

theorem connection_id_clamped:
  "parseLongHeader IsVersionNegotationFlag [0x80, 0,0,0,0, 0x51, 1,2,3,4,5] 0
    = Inr \<lparr> header = Long \<lparr> lh_type = 0,
              lh_destConnectionID = ConnectionID [1,2,3,4,5] 8,
              lh_srcConnectionID = ConnectionID [] 4,
              lh_packetNumber = None, lh_payloadLength = None,
              lh_version = Version [0,0,0,0],
              lh_parsedBuffer = [0x80, 0,0,0,0, 0x51, 1,2,3,4,5] \<rparr>,
            offset = 18 \<rparr>"
  by (simp add: parseLongHeader_def new_Version_def new_ConnectionID_def valid_cid_length_def
        readUInt8_def Buffer_slice_def cid_length_def IsVersionNegotationFlag_def Let_def)

text \<open>
  Claim C4. For every buffer whose first byte has the most-significant bit set and
  whose version is the negotiation sentinel for the validator: if the buffer reaches
  the connection-ID-lengths byte, parsing returns a long header without payload length
  and without packet number, the source connection ID ends where the returned offset
  points, and the result is the same when the buffer is cut off at that offset, so
  nothing behind the source connection ID is read; otherwise parsing fails, with
  \<open>InvalidFieldLength\<close> when the buffer ends inside the version and with
  \<open>TruncatedInput\<close> when only the connection-ID-lengths byte is missing.
\<close>

theorem version_negotiation_shape:
  assumes msb: "off < length buf" "unat (buf ! off) AND 0x80 = 0x80"
      and neg: "vn (long_version buf off)"
  shows "if off + 5 < length buf
         then (\<exists>h. parseHeader vn buf off = Inr \<lparr> header = Long h, offset = ids_end buf off \<rparr>
                 \<and> lh_payloadLength h = None \<and> lh_packetNumber h = None
                 \<and> lh_srcConnectionID h =
                     ConnectionID (Buffer_slice buf (ids_end buf off - srcLength buf off)
                                     (ids_end buf off)) (srcLength buf off))
            \<and> parseHeader vn (take (ids_end buf off) buf) off = parseHeader vn buf off
         else parseHeader vn buf off
                = Inl (if length buf < off + 5 then InvalidFieldLength else TruncatedInput)"
proof (cases "off + 5 < length buf")
  case False
  show ?thesis
  proof (cases "length buf < off + 5")
    case True
    with False msb(1) parseLongHeader_short_version [of off buf vn] parseHeader_long [OF msb, of vn]
    show ?thesis by simp
  next
    case short: False
    with False have "length buf = off + 5" by simp
    with False short parseLongHeader_no_lengths_byte [of buf off vn] parseHeader_long [OF msb, of vn]
    show ?thesis by simp
  qed
next
  case True
  let ?n = "ids_end buf off"
  let ?b = "take ?n buf"
  have n: "off + 6 \<le> ?n" by (simp add: ids_end_def)
  have b5: "?b ! (off + 5) = buf ! (off + 5)" and b0: "?b ! off = buf ! off"
    using n by simp_all
  have dl: "destLength ?b off = destLength buf off" and sl: "srcLength ?b off = srcLength buf off"
    by (simp_all add: destLength_def srcLength_def b5)
  have ie: "ids_end ?b off = ?n"
    unfolding ids_end_def [of ?b off] dl sl by (simp add: ids_end_def)
  have lv: "long_version ?b off = long_version buf off"
    using n by (simp add: long_version_def Buffer_slice_take)
  have d: "off + 6 + destLength buf off \<le> ?n" by (simp add: ids_end_def)
  have len: "off + 5 < length ?b" and len0: "off < length ?b" using True n by simp_all
  have 1: "parseHeader vn ?b off = parseLongHeader vn ?b off"
    using parseHeader_long [OF len0, of vn] msb(2) by (simp add: b0)
  have 2: "parseHeader vn buf off = parseLongHeader vn buf off"
    by (rule parseHeader_long [OF msb])
  have neg': "vn (long_version ?b off)" using neg by (simp add: lv)
  have "parseLongHeader vn ?b off = parseLongHeader vn buf off"
    unfolding parseLongHeader_negotiation [where vn=vn, OF len neg']
              parseLongHeader_negotiation [where vn=vn, OF True neg]
    using n by (simp add: dl sl ie lv b0 Buffer_slice_take d)
  moreover have "ids_end buf off - srcLength buf off = off + 6 + destLength buf off"
    by (simp add: ids_end_def)
  ultimately show ?thesis
    using 1 2 True parseLongHeader_negotiation [where vn=vn, OF True neg] by simp
qed

theorem version_negotiation_shape_witness:
  "parseHeader IsVersionNegotationFlag [0x80, 0, 0, 0, 0, 0x05, 1, 2, 3, 4, 5, 6, 7, 8, 0xFF, 0x00, 0x00, 0x01] 0
     = Inr \<lparr> header = Long \<lparr> lh_type = 0,
                lh_destConnectionID = ConnectionID [] 0,
                lh_srcConnectionID = ConnectionID [1, 2, 3, 4, 5, 6, 7, 8] 8,
                lh_packetNumber = None, lh_payloadLength = None,
                lh_version = Version [0, 0, 0, 0],
                lh_parsedBuffer = [0x80, 0, 0, 0, 0, 0x05, 1, 2, 3, 4, 5, 6, 7, 8] \<rparr>,
              offset = 14 \<rparr>"
  using version_negotiation_shape [of 0 "[0x80, 0, 0, 0, 0, 0x05, 1, 2, 3, 4, 5, 6, 7, 8, 0xFF, 0x00, 0x00, 0x01]"
      IsVersionNegotationFlag]
  by (simp add: parseHeader_def parseLongHeader_def new_Version_def new_ConnectionID_def valid_cid_length_def readUIntBE_def readUInt8_def
          Buffer_slice_def cid_length_def IsVersionNegotationFlag_def Let_def)

text \<open>
  Claim C3, as the code has it. \<open>parseLongHeader\<close> fails exactly in these cases: the
  first byte is missing (\<open>TruncatedInput\<close>); the buffer ends inside the 4-byte
  version (\<open>InvalidFieldLength\<close>, from the constructor of \<open>Version\<close>, which is
  called on the clamped slice before the next read); the connection-ID-lengths byte
  is missing (\<open>TruncatedInput\<close>); or the version is not the negotiation sentinel and
  the payload-length VarInt is incomplete (\<open>TruncatedInput\<close>, propagated from the
  VarInt codec). Slices never fail, so a connection ID of a version negotiation or a
  packet number that the buffer cuts off does not make parsing fail.
\<close>

theorem long_header_failure:
  "parseLongHeader vn buf off = Inl e \<longleftrightarrow>
     (e = InvalidFieldLength \<and> off < length buf \<and> length buf < off + 5)
     \<or> (e = TruncatedInput \<and>
         (length buf \<le> off
          \<or> length buf = off + 5
          \<or> (off + 5 < length buf
              \<and> \<not> vn (long_version buf off)
              \<and> (length buf \<le> ids_end buf off
                  \<or> length buf
                      < ids_end buf off + 2 ^ unat (drop_bit 6 (buf ! ids_end buf off))))))"
proof -
  consider (none) "length buf \<le> off" | (version) "off < length buf" "length buf < off + 5"
    | (lengths) "length buf = off + 5" | (rest) "off + 5 < length buf"
    by linarith
  then show ?thesis
  proof cases
    case none
    then show ?thesis using parseLongHeader_no_first_byte [of buf off vn] by auto
  next
    case version
    then show ?thesis using parseLongHeader_short_version [of off buf vn] by auto
  next
    case lengths
    then show ?thesis using parseLongHeader_no_lengths_byte [of buf off vn] by auto
  next
    case rest
    show ?thesis
    proof (cases "vn (long_version buf off)")
      case neg: True
      show ?thesis using rest neg parseLongHeader_negotiation [where vn=vn, OF rest neg] by simp
    next
      case reg: False
      show ?thesis
        unfolding parseLongHeader_regular [where vn=vn, OF rest reg]
        using rest reg VLIE_decode_fails [of buf "ids_end buf off" e]
        by (cases "VLIE_decode buf (ids_end buf off)") auto
    qed
  qed
qed

theorem long_header_failure_witness:
  "parseLongHeader IsVersionNegotationFlag [0xFF, 0, 0, 0, 1, 0x00, 0x40] 0 = Inl TruncatedInput
   \<and> parseLongHeader IsVersionNegotationFlag [0xFF, 0, 0] 0 = Inl InvalidFieldLength"
  using long_header_failure [of IsVersionNegotationFlag "[0xFF, 0, 0, 0, 1, 0x00, 0x40]" 0 TruncatedInput]
        long_header_failure [of IsVersionNegotationFlag "[0xFF, 0, 0]" 0 InvalidFieldLength]
  by (simp add: ids_end_def destLength_def srcLength_def cid_length_def long_version_def
        Buffer_slice_def IsVersionNegotationFlag_def)

text \<open>
  Claim C3 as stated says that a buffer too short for the 4-byte packet number makes
  \<open>parseLongHeader\<close> fail. This buffer holds two bytes of packet number and parses.
\<close>

theorem long_header_truncated_packet_number:
  "parseLongHeader IsVersionNegotationFlag [0xFF, 0, 0, 0, 1, 0x00, 0x05, 0xAA, 0xBB] 0
     = Inr \<lparr> header = Long \<lparr> lh_type = 127,
                lh_destConnectionID = ConnectionID [] 0,
                lh_srcConnectionID = ConnectionID [] 0,
                lh_packetNumber = Some (PacketNumber [0xAA, 0xBB]), lh_payloadLength = Some 5,
                lh_version = Version [0, 0, 0, 1],
                lh_parsedBuffer = [0xFF, 0, 0, 0, 1, 0x00, 0x05, 0xAA, 0xBB] \<rparr>,
              offset = 11 \<rparr>"
  by (simp add: parseLongHeader_def new_Version_def new_ConnectionID_def valid_cid_length_def readUInt8_def Buffer_slice_def VLIE_decode_def
        be_value_def cid_length_def IsVersionNegotationFlag_def Let_def)

section \<open>Short headers\<close>

lemmas short_defs = parseShortHeader_def new_ConnectionID_def readUInt8_def Buffer_copy_alloc
  getShortHeaderPacketNumber_def short_type_def short_destLen_def pn_start_def
  OneOctet_def TwoOctet_def FourOctet_def Let_def

text \<open>The ways through \<open>parseShortHeader\<close>.\<close>

lemma parseShortHeader_truncated:
  "length buf \<le> off + 1 \<Longrightarrow> parseShortHeader buf off = Inl TruncatedInput"
  by (auto simp: parseShortHeader_def readUInt8_def Let_def)

lemma parseShortHeader_invalid_length:
  "off + 1 < length buf \<Longrightarrow> \<not> valid_cid_length (short_destLen buf off) \<Longrightarrow>
   parseShortHeader buf off = Inl InvalidFieldLength"
  by (simp add: short_defs)

lemma parseShortHeader_invalid:
  "off + 1 < length buf \<Longrightarrow> valid_cid_length (short_destLen buf off) \<Longrightarrow>
   short_type buf off = 3 \<Longrightarrow>
   parseShortHeader buf off = Inl InvalidPacketNumberWidth"
  by (simp add: short_defs)

lemma short_type_cases: "short_type buf off = 0 \<or> short_type buf off = 1 \<or> short_type buf off = 2 \<or> short_type buf off = 3"
  using and3_cases [of "unat (buf ! off)"] by (simp add: short_type_def correctShortHeaderType_def)

lemma parseShortHeader_success:
  assumes "off + 1 < length buf" "valid_cid_length (short_destLen buf off)"
    "short_type buf off \<noteq> 3"
  shows "parseShortHeader buf off =
     Inr \<lparr> header = Short \<lparr> sh_type = short_type buf off,
              sh_destConnectionID =
                ConnectionID (Buffer_slice buf (off + 1) (pn_start buf off)
                    @ replicate (short_destLen buf off - (length buf - (off + 1))) 0)
                  (short_destLen buf off),
              sh_packetNumber =
                PacketNumber (Buffer_slice buf (pn_start buf off)
                                (pn_start buf off + 2 ^ short_type buf off)),
              sh_keyPhaseBit = (unat (buf ! off) AND 0x40 = 0x40),
              sh_spinBit = (unat (buf ! off) AND 0x04 = 0x04),
              sh_parsedBuffer = Buffer_slice buf off (pn_start buf off + 2 ^ short_type buf off) \<rparr>,
            offset = pn_start buf off + 2 ^ short_type buf off \<rparr>"
  using assms short_type_cases [of buf off]
  by (auto simp: short_defs)

lemma parseShortHeader_Inr:
  assumes "parseShortHeader buf off = Inr ho"
  shows "off + 1 < length buf" "valid_cid_length (short_destLen buf off)"
    "short_type buf off \<noteq> 3"
proof -
  show len: "off + 1 < length buf"
    using assms parseShortHeader_truncated [of buf off] by (cases "off + 1 < length buf") auto
  show v: "valid_cid_length (short_destLen buf off)"
    using assms parseShortHeader_invalid_length [OF len] by auto
  show "short_type buf off \<noteq> 3"
    using assms parseShortHeader_invalid [OF len v] by auto
qed

lemma parseShortHeader_is_Short:
  assumes "parseShortHeader buf off = Inr ho"
  shows "\<exists>h. header ho = Short h"
  using parseShortHeader_success [OF parseShortHeader_Inr [OF assms]] assms by auto


text \<open>
  Claim C2, as the code has it. The width selector is the first byte masked to two
  bits, and the switch knows the three values 0, 1 and 2. The fourth value, 3, falls
  to the \<open>default\<close> branch: parsing a short header fails with
  \<open>InvalidPacketNumberWidth\<close> exactly when the type byte and the length byte can be
  read, the connection ID accepts its length (0, or between 4 and 18; it is built
  before the switch is reached) and both low bits of the type byte are set.
\<close>

theorem short_header_invalid_width_iff:
  "parseShortHeader buf off = Inl InvalidPacketNumberWidth
     \<longleftrightarrow> (off + 1 < length buf
          \<and> valid_cid_length (unat (buf ! (off + 1)))
          \<and> unat (buf ! off) AND 3 = 3)"
proof -
  have t: "short_type buf off = unat (buf ! off) AND 3"
    by (simp add: short_type_def correctShortHeaderType_def)
  have d: "short_destLen buf off = unat (buf ! (off + 1))"
    by (simp add: short_destLen_def)
  show ?thesis
  proof (cases "off + 1 < length buf")
    case False
    then show ?thesis using parseShortHeader_truncated [of buf off] by simp
  next
    case len: True
    show ?thesis
    proof (cases "valid_cid_length (short_destLen buf off)")
      case False
      then show ?thesis using parseShortHeader_invalid_length [OF len False] by (simp add: d)
    next
      case v: True
      show ?thesis
      proof (cases "short_type buf off = 3")
        case True
        then show ?thesis using parseShortHeader_invalid [OF len v True] len v by (simp add: t d)
      next
        case False
        then show ?thesis using parseShortHeader_success [OF len v False] by (simp add: t)
      qed
    qed
  qed
qed

text \<open>
  Claim C2 as stated says that the failure branch is unreachable for every input byte.
  The type byte \<open>0x03\<close> reaches it.
\<close>

theorem short_header_invalid_width_reachable:
  "parseShortHeader [0x03, 0x00, 0x00] 0 = Inl InvalidPacketNumberWidth"
  by (simp add: parseShortHeader_def new_ConnectionID_def valid_cid_length_def readUIntBE_def readUInt8_def Buffer_copy_def
        Buffer_alloc_def Buffer_slice_def getShortHeaderPacketNumber_def
        correctShortHeaderType_def OneOctet_def TwoOctet_def FourOctet_def Let_def)

text \<open>
  Claim C8, as the code has it. For a short header whose type byte and length byte
  can be read, whose connection ID accepts its length (0, or between 4 and 18) and
  whose width selector (the low two bits of the type byte) is 0, 1 or 2, parsing
  succeeds; the packet number is the slice of 1, 2 or 4 positions that follows the
  connection ID, which holds exactly 1, 2 or 4 bytes when the buffer has that many
  left and fewer when the buffer ends earlier; and the returned offset lies exactly
  1, 2 or 4 positions behind the start of the packet number.
\<close>

theorem short_header_packet_number_width:
  assumes "off + 1 < length buf"
  defines "sel \<equiv> unat (buf ! off) AND 3"
  defines "start \<equiv> off + 1 + unat (buf ! (off + 1))"
  assumes "valid_cid_length (unat (buf ! (off + 1)))" and "sel < 3"
  shows "\<exists>h. parseShortHeader buf off = Inr \<lparr> header = Short h, offset = start + 2 ^ sel \<rparr>
           \<and> sh_packetNumber h = PacketNumber (Buffer_slice buf start (start + 2 ^ sel))
           \<and> length (pn_bytes (sh_packetNumber h)) = min (2 ^ sel) (length buf - start)"
proof -
  have t: "short_type buf off = sel"
    by (simp add: short_type_def correctShortHeaderType_def sel_def)
  have s: "pn_start buf off = start"
    by (simp add: pn_start_def short_destLen_def start_def)
  have v: "valid_cid_length (short_destLen buf off)"
    using assms(4) by (simp add: short_destLen_def)
  from assms(5) have "short_type buf off \<noteq> 3" by (simp add: t)
  from parseShortHeader_success [OF assms(1) v this] show ?thesis
    by (simp add: t s length_Buffer_slice)
qed

text \<open>
  Claim C8 as stated says that exactly 1, 2 or 4 bytes are read for every short-header
  buffer. With selector 2 and only two bytes left after the connection ID, the packet
  number holds two bytes, and the returned offset 9 lies beyond the 7 bytes of the
  buffer.
\<close>

theorem short_header_packet_number_clamped:
  "parseShortHeader [0x02, 0x04, 0x11, 0x22, 0x33, 0xAA, 0xBB] 0
     = Inr \<lparr> header = Short \<lparr> sh_type = 2,
                sh_destConnectionID = ConnectionID [0x04, 0x11, 0x22, 0x33] 4,
                sh_packetNumber = PacketNumber [0xAA, 0xBB],
                sh_keyPhaseBit = False, sh_spinBit = False,
                sh_parsedBuffer = [0x02, 0x04, 0x11, 0x22, 0x33, 0xAA, 0xBB] \<rparr>,
              offset = 9 \<rparr>"
  by (simp add: parseShortHeader_def new_ConnectionID_def valid_cid_length_def readUIntBE_def readUInt8_def Buffer_copy_def
        Buffer_alloc_def Buffer_slice_def getShortHeaderPacketNumber_def
        correctShortHeaderType_def OneOctet_def TwoOctet_def FourOctet_def Let_def)

theorem short_header_packet_number_width_witness:
  "parseShortHeader [0x41, 0x04, 0x11, 0x22, 0x33, 0xAA, 0xBB, 0xCC] 0
     = Inr \<lparr> header = Short \<lparr> sh_type = 1,
                sh_destConnectionID = ConnectionID [0x04, 0x11, 0x22, 0x33] 4,
                sh_packetNumber = PacketNumber [0xAA, 0xBB],
                sh_keyPhaseBit = True, sh_spinBit = False,
                sh_parsedBuffer = [0x41, 0x04, 0x11, 0x22, 0x33, 0xAA, 0xBB] \<rparr>,
              offset = 7 \<rparr>"
  using short_header_packet_number_width [of 0 "[0x41, 0x04, 0x11, 0x22, 0x33, 0xAA, 0xBB, 0xCC]"]
  by (simp add: parseShortHeader_def new_ConnectionID_def valid_cid_length_def readUIntBE_def readUInt8_def Buffer_copy_def
        Buffer_alloc_def Buffer_slice_def getShortHeaderPacketNumber_def
        correctShortHeaderType_def OneOctet_def TwoOctet_def FourOctet_def Let_def)

section \<open>Either header\<close>

lemma parseHeader_Long:
  assumes "parseHeader vn buf off = Inr ho" "header ho = Long h"
  shows "parseLongHeader vn buf off = Inr ho"
proof -
  have len0: "off < length buf"
    using assms(1) parseHeader_empty [of buf off vn] by (cases "off < length buf") auto
  show ?thesis
  proof (cases "unat (buf ! off) AND 0x80 = 0x80")
    case True
    with assms(1) parseHeader_long [OF len0 True, of vn] show ?thesis by simp
  next
    case False
    with assms(1) parseHeader_short [OF len0 False, of vn]
    have "parseShortHeader buf off = Inr ho" by simp
    from parseShortHeader_is_Short [OF this] assms(2) show ?thesis by auto
  qed
qed


text \<open>
  Claim C6, as the code has it. For every successful header parse, long or short, the
  returned offset is the position right after the last field of the header (the
  packet number, or the source connection ID of a version negotiation), and the raw
  span stored on the header is the buffer bytes from the start of the packet up to the
  returned offset or the end of the buffer, whichever comes first. So when the header
  fits in the buffer the span is exactly the bytes \<open>[start, offset)\<close>.
\<close>

theorem header_span:
  assumes "parseHeader vn buf off = Inr ho"
  shows "off < offset ho
       \<and> getParsedBuffer (header ho) = map (nth buf) [off..<min (offset ho) (length buf)]
       \<and> (case header ho of
             Long h \<Rightarrow>
               (case lh_packetNumber h of
                  Some pn \<Rightarrow> pn = PacketNumber (Buffer_slice buf (offset ho - 4) (offset ho))
                | None \<Rightarrow>
                    lh_srcConnectionID h =
                      ConnectionID (Buffer_slice buf (offset ho - srcLength buf off) (offset ho))
                        (srcLength buf off))
           | Short h \<Rightarrow>
               sh_packetNumber h =
                 PacketNumber (Buffer_slice buf (offset ho - 2 ^ sh_type h) (offset ho)))"
proof -
  have len0: "off < length buf"
    using assms parseHeader_empty [of buf off vn] by (cases "off < length buf") auto
  show ?thesis
  proof (cases "unat (buf ! off) AND 0x80 = 0x80")
    case True
    have p: "parseLongHeader vn buf off = Inr ho"
      using assms parseHeader_long [OF len0 True, of vn] by simp
    have len: "off + 5 < length buf" using p by (rule parseLongHeader_Inr_length)
    show ?thesis
    proof (cases "vn (long_version buf off)")
      case neg: True
      from parseLongHeader_negotiation [where vn=vn, OF len neg] p
      have ho: "ho = \<lparr> header = Long \<lparr> lh_type = int (unat (buf ! off)) - 0x80,
              lh_destConnectionID =
                ConnectionID (Buffer_slice buf (off + 6) (off + 6 + destLength buf off))
                  (destLength buf off),
              lh_srcConnectionID =
                ConnectionID (Buffer_slice buf (off + 6 + destLength buf off) (ids_end buf off))
                  (srcLength buf off),
              lh_packetNumber = None, lh_payloadLength = None,
              lh_version = long_version buf off,
              lh_parsedBuffer = Buffer_slice buf off (ids_end buf off) \<rparr>,
            offset = ids_end buf off \<rparr>" by simp
      have e: "ids_end buf off - srcLength buf off = off + 6 + destLength buf off"
        by (simp add: ids_end_def)
      show ?thesis unfolding ho by (simp add: e Buffer_slice_nth [of buf off]) (simp add: ids_end_def)
    next
      case reg: False
      from parseLongHeader_regular [where vn=vn, OF len reg] p
      obtain v where v: "VLIE_decode buf (ids_end buf off) = Inr v"
        by (cases "VLIE_decode buf (ids_end buf off)") auto
      have "off < vlie_offset v" using VLIE_decode_offset [OF v] by (simp add: ids_end_def)
      with parseLongHeader_regular [where vn=vn, OF len reg] p v show ?thesis
        by (auto simp: Buffer_slice_nth [of buf off])
    qed
  next
    case False
    have p: "parseShortHeader buf off = Inr ho"
      using assms parseHeader_short [OF len0 False, of vn] by simp
    from parseShortHeader_success [OF parseShortHeader_Inr [OF p]] p show ?thesis
      by (auto simp: Buffer_slice_nth [of buf off] pn_start_def)
  qed
qed

theorem header_span_witness:
  "parseHeader IsVersionNegotationFlag [0x80, 0, 0, 0, 1, 0x00, 0x02, 0, 0, 0, 7, 0xAA, 0xBB] 0
     = Inr \<lparr> header = Long \<lparr> lh_type = 0,
                lh_destConnectionID = ConnectionID [] 0,
                lh_srcConnectionID = ConnectionID [] 0,
                lh_packetNumber = Some (PacketNumber [0, 0, 0, 7]), lh_payloadLength = Some 2,
                lh_version = Version [0, 0, 0, 1],
                lh_parsedBuffer = [0x80, 0, 0, 0, 1, 0x00, 0x02, 0, 0, 0, 7] \<rparr>,
              offset = 11 \<rparr>
   \<and> [0x80, 0, 0, 0, 1, 0x00, 0x02, 0, 0, 0, 7]
       = map (nth [0x80, 0, 0, 0, 1, 0x00, 0x02, 0, 0, 0, 7, 0xAA, 0xBB :: byte]) [0..<11]"
proof -
  have p: "parseHeader IsVersionNegotationFlag
             [0x80, 0, 0, 0, 1, 0x00, 0x02, 0, 0, 0, 7, 0xAA, 0xBB] 0
     = Inr \<lparr> header = Long \<lparr> lh_type = 0,
                lh_destConnectionID = ConnectionID [] 0,
                lh_srcConnectionID = ConnectionID [] 0,
                lh_packetNumber = Some (PacketNumber [0, 0, 0, 7]), lh_payloadLength = Some 2,
                lh_version = Version [0, 0, 0, 1],
                lh_parsedBuffer = [0x80, 0, 0, 0, 1, 0x00, 0x02, 0, 0, 0, 7] \<rparr>,
              offset = 11 \<rparr>"
    by (simp add: parseHeader_def parseLongHeader_def new_Version_def new_ConnectionID_def valid_cid_length_def readUIntBE_def readUInt8_def
          Buffer_slice_def VLIE_decode_def be_value_def cid_length_def
          IsVersionNegotationFlag_def Let_def)
  from header_span [OF p, THEN conjunct2, THEN conjunct1] show ?thesis by (simp add: p upt_rec)
qed

text \<open>
  Claim C6 as stated says that the offset points at the first byte of the payload and
  the span is the bytes \<open>[start, offset)\<close>. A long header whose packet number is cut
  off parses successfully: the returned offset 11 lies beyond the 7 bytes of the
  buffer, and the span holds 7 bytes, not 11.
\<close>

theorem header_span_beyond_buffer:
  "parseHeader IsVersionNegotationFlag [0x80, 0, 0, 0, 1, 0x00, 0x00] 0
     = Inr \<lparr> header = Long \<lparr> lh_type = 0,
                lh_destConnectionID = ConnectionID [] 0,
                lh_srcConnectionID = ConnectionID [] 0,
                lh_packetNumber = Some (PacketNumber []), lh_payloadLength = Some 0,
                lh_version = Version [0, 0, 0, 1],
                lh_parsedBuffer = [0x80, 0, 0, 0, 1, 0x00, 0x00] \<rparr>,
              offset = 11 \<rparr>"
  by (simp add: parseHeader_def parseLongHeader_def new_Version_def new_ConnectionID_def valid_cid_length_def readUIntBE_def readUInt8_def Buffer_slice_def
        VLIE_decode_def be_value_def cid_length_def IsVersionNegotationFlag_def Let_def)

section \<open>Coalesced packets\<close>

text \<open>The definitions that evaluate the parser on a concrete datagram.\<close>

lemmas eval_defs = parse_def parse_loop.simps loop_cond_def loop_body_def parseHeader_def
  parseLongHeader_def parseShortHeader_def new_Version_def new_ConnectionID_def valid_cid_length_def readUIntBE_def readUInt8_def Buffer_slice_def
  Buffer_copy_def Buffer_alloc_def getShortHeaderPacketNumber_def correctShortHeaderType_def
  OneOctet_def TwoOctet_def FourOctet_def VLIE_decode_def be_value_def cid_length_def
  IsVersionNegotationFlag_def Let_def

lemma loop_body_progress:
  assumes "loop_cond s" "totalSize s < int (offset (headerOffset s))" "loop_body vn buf s = Next s'"
  shows "totalSize s < totalSize s' \<and> totalSize s' < int (length buf)
       \<and> totalSize s' < int (offset (headerOffset s'))"
  using assms
  by (auto simp: loop_cond_def loop_body_def Let_def
           split: if_splits sum.splits option.splits dest!: parseHeader_offset)

lemma loop_body_Next_headerOffsets:
  "loop_body vn buf s = Next s' \<Longrightarrow> length (headerOffsets s') = Suc (length (headerOffsets s))"
  by (auto simp: loop_body_def Let_def split: if_splits sum.splits)

lemma loop_body_Break_headerOffsets:
  "loop_body vn buf s = Break s' \<Longrightarrow> headerOffsets s' = headerOffsets s"
  by (auto simp: loop_body_def Let_def split: if_splits sum.splits)

lemma parse_loop_length:
  "parse_loop vn buf s = Inr hs \<Longrightarrow> length hs \<le> length (headerOffsets s) + remaining buf s"
proof (induction vn buf s rule: parse_loop.induct)
  case (1 vn buf s)
  show ?case
  proof (cases "loop_cond s")
    case False
    with "1.prems" show ?thesis by (simp add: parse_loop.simps)
  next
    case True
    show ?thesis
    proof (cases "loop_body vn buf s")
      case (Next s')
      with True "1.prems" have "parse_loop vn buf s' = Inr hs" by (simp add: parse_loop.simps)
      from "1.IH" [OF True Next this]
      have "length hs \<le> length (headerOffsets s') + remaining buf s'" .
      with loop_body_Next_headerOffsets [OF Next] loop_body_decreases [OF True Next]
      show ?thesis by simp
    next
      case (Break s')
      with True "1.prems" loop_body_Break_headerOffsets [OF Break] show ?thesis
        by (simp add: parse_loop.simps)
    next
      case (Throw e)
      with True "1.prems" show ?thesis by (simp add: parse_loop.simps)
    qed
  qed
qed

lemma parse_length: "parse vn buf = Inr hs \<Longrightarrow> length hs \<le> length buf"
proof -
  assume a: "parse vn buf = Inr hs"
  then obtain ho where ho: "parseHeader vn buf 0 = Inr ho"
    by (cases "parseHeader vn buf 0") (auto simp: parse_def)
  with a have "parse_loop vn buf \<lparr> headerOffsets = [ho], headerOffset = ho, totalSize = 0 \<rparr> = Inr hs"
    by (simp add: parse_def)
  from parse_loop_length [OF this]
  have "length hs \<le> 1 + remaining buf \<lparr> headerOffsets = [ho], headerOffset = ho, totalSize = 0 \<rparr>"
    by simp
  moreover have "0 < offset ho" using parseHeader_offset [OF ho] by simp
  then have "remaining buf \<lparr> headerOffsets = [ho], headerOffset = ho, totalSize = 0 \<rparr>
               \<le> length buf - 1"
    by (cases "getPayloadLength (header ho)") (auto simp: remaining_def)
  moreover have "0 < length buf"
    using ho by (cases "0 < length buf") (auto simp: parseHeader_def readUInt8_def)
  ultimately show ?thesis by arith
qed

text \<open>
  Claim C5. The loop of \<open>parse\<close> cannot run forever: the relation between the state
  before and after a pass through its body is well-founded. Every parsed header ends
  behind the offset at which it starts, so each pass strictly increases the cumulative
  size, which stays below the length of the buffer as long as the loop goes on; and
  the number of headers that \<open>parse\<close> returns is at most the length of the buffer.
\<close>

theorem parse_terminates:
  "wf {(s', s). loop_cond s \<and> loop_body vn buf s = Next s'}
   \<and> (\<forall>ho. parseHeader vn buf 0 = Inr ho \<longrightarrow> 0 < offset ho)
   \<and> (\<forall>s s'. loop_cond s \<and> totalSize s < int (offset (headerOffset s))
               \<and> loop_body vn buf s = Next s'
          \<longrightarrow> totalSize s < totalSize s' \<and> totalSize s' < int (length buf)
              \<and> totalSize s' < int (offset (headerOffset s')))
   \<and> (\<forall>hs. parse vn buf = Inr hs \<longrightarrow> length hs \<le> length buf)"
proof (intro conjI allI impI)
  show "wf {(s', s). loop_cond s \<and> loop_body vn buf s = Next s'}"
    by (rule wf_subset [OF wf_measure [of "remaining buf"]]) (auto dest: loop_body_decreases)
next
  fix ho assume "parseHeader vn buf 0 = Inr ho"
  then show "0 < offset ho" using parseHeader_offset by fastforce
next
  fix s s'
  assume a: "loop_cond s \<and> totalSize s < int (offset (headerOffset s)) \<and> loop_body vn buf s = Next s'"
  with loop_body_progress [of s vn buf s'] show "totalSize s < totalSize s'"
    "totalSize s' < int (length buf)" "totalSize s' < int (offset (headerOffset s'))" by simp_all
next
  fix hs assume "parse vn buf = Inr hs"
  then show "length hs \<le> length buf" by (rule parse_length)
qed

theorem parse_terminates_witness:
  "(case parseHeader IsVersionNegotationFlag two_long_packets 0 of
      Inl e \<Rightarrow> False
    | Inr ho \<Rightarrow>
       (case loop_body IsVersionNegotationFlag two_long_packets
               \<lparr> headerOffsets = [ho], headerOffset = ho, totalSize = 0 \<rparr> of
          Next s' \<Rightarrow> loop_cond \<lparr> headerOffsets = [ho], headerOffset = ho, totalSize = 0 \<rparr>
                    \<and> offset ho = 11 \<and> totalSize s' = 12 \<and> offset (headerOffset s') = 23
        | Break s' \<Rightarrow> False
        | Throw e \<Rightarrow> False))
   \<and> (case parse IsVersionNegotationFlag two_long_packets of
         Inl e \<Rightarrow> False
       | Inr hs \<Rightarrow> length hs = 2 \<and> length two_long_packets = 23)"
  using parse_terminates [of IsVersionNegotationFlag two_long_packets]
  by (simp add: eval_defs two_long_packets_def)

lemma parse_two:
  assumes h1: "parseHeader vn buf 0 = Inr ho1"
    and l1: "getHeaderType (header ho1) = HeaderType_LongHeader"
            "getPayloadLength (header ho1) = Some p"
    and more: "offset ho1 + p < length buf"
    and h2: "parseHeader vn buf (offset ho1 + p) = Inr ho2"
    and stop: "getHeaderType (header ho2) = HeaderType_ShortHeader
             \<or> (case getPayloadLength (header ho2) of None \<Rightarrow> True
                 | Some q \<Rightarrow> length buf \<le> offset ho2 + q)"
  shows "parse vn buf = Inr [ho1, ho2]"
proof -
  let ?s0 = "\<lparr> headerOffsets = [ho1], headerOffset = ho1, totalSize = 0 \<rparr>"
  let ?s1 = "\<lparr> headerOffsets = [ho1, ho2], headerOffset = ho2, totalSize = int (offset ho1 + p) \<rparr>"
  have c0: "loop_cond ?s0" using l1 by (simp add: loop_cond_def)
  have n: "nat (int p + int (offset ho1)) = offset ho1 + p" by simp
  have b0: "loop_body vn buf ?s0 = Next ?s1"
    using l1 more h2 by (simp add: loop_body_def Let_def n)
  have 1: "parse_loop vn buf ?s1 = Inr [ho1, ho2]"
  proof (cases "loop_cond ?s1")
    case False
    then show ?thesis by (simp add: parse_loop.simps)
  next
    case True
    then obtain q where q: "getPayloadLength (header ho2) = Some q" "length buf \<le> offset ho2 + q"
      using stop by (auto simp: loop_cond_def split: option.splits)
    then have "loop_body vn buf ?s1 = Break (?s1\<lparr> totalSize := int (offset ho2 + q) \<rparr>)"
      by (simp add: loop_body_def Let_def)
    with True show ?thesis by (simp add: parse_loop.simps)
  qed
  have "parse_loop vn buf ?s0 = parse_loop vn buf ?s1"
    using c0 b0 by (subst parse_loop.simps) simp
  with h1 1 show ?thesis by (simp add: parse_def)
qed

text \<open>
  Claim C1, as the code has it. For a buffer that holds two long-header packets, where
  the payload length of the first reaches exactly to the start of the second header
  and the second is a version negotiation or declares a payload that reaches the end
  of the buffer, \<open>parse\<close> returns exactly two entries. The second header is parsed
  at the payload-start offset of the first plus its payload length: its raw span
  begins there. The offset of the second entry is the payload start of the second
  packet, which lies behind that position by the size of the second header, at least
  6 bytes.
\<close>

theorem coalesced_long_headers:
  assumes "parseHeader vn buf 0 = Inr \<lparr> header = Long h1, offset = o1 \<rparr>"
      and "lh_payloadLength h1 = Some p"
      and "o1 + p < length buf"
      and "parseHeader vn buf (o1 + p) = Inr \<lparr> header = Long h2, offset = o2 \<rparr>"
      and "case lh_payloadLength h2 of None \<Rightarrow> True | Some q \<Rightarrow> length buf \<le> o2 + q"
  shows "parse vn buf = Inr [\<lparr> header = Long h1, offset = o1 \<rparr>,
                             \<lparr> header = Long h2, offset = o2 \<rparr>]
       \<and> o1 + p + 6 \<le> o2
       \<and> lh_parsedBuffer h2 = Buffer_slice buf (o1 + p) o2"
proof -
  have "parse vn buf = Inr [\<lparr> header = Long h1, offset = o1 \<rparr>,
                            \<lparr> header = Long h2, offset = o2 \<rparr>]"
    using parse_two [OF assms(1), of p "\<lparr> header = Long h2, offset = o2 \<rparr>"] assms(2-5)
    by (cases "lh_payloadLength h2") simp_all
  moreover have "parseLongHeader vn buf (o1 + p) = Inr \<lparr> header = Long h2, offset = o2 \<rparr>"
    using parseHeader_Long [OF assms(4)] by simp
  from parseLongHeader_span [OF this]
  have "o1 + p + 6 \<le> o2" "lh_parsedBuffer h2 = Buffer_slice buf (o1 + p) o2"
    by (simp_all add: ids_end_def)
  ultimately show ?thesis by simp
qed

theorem coalesced_long_headers_witness:
  "parse IsVersionNegotationFlag long_then_negotiation
     = Inr [\<lparr> header = Long \<lparr> lh_type = 127,
                 lh_destConnectionID = ConnectionID [] 0,
                 lh_srcConnectionID = ConnectionID [] 0,
                 lh_packetNumber = Some (PacketNumber [0, 0, 0, 1]), lh_payloadLength = Some 0,
                 lh_version = Version [0, 0, 0, 1],
                 lh_parsedBuffer = [0xFF, 0, 0, 0, 1, 0x00, 0x00, 0, 0, 0, 1] \<rparr>,
               offset = 11 \<rparr>,
            \<lparr> header = Long \<lparr> lh_type = 0,
                 lh_destConnectionID = ConnectionID [] 0,
                 lh_srcConnectionID = ConnectionID [] 0,
                 lh_packetNumber = None, lh_payloadLength = None,
                 lh_version = Version [0, 0, 0, 0],
                 lh_parsedBuffer = [0x80, 0, 0, 0, 0, 0x00] \<rparr>,
               offset = 17 \<rparr>]
   \<and> Buffer_slice two_long_packets (11 + 1) 23 = [0xFF, 0, 0, 0, 1, 0x00, 0x00, 0, 0, 0, 2]"
proof -
  have a: "parseHeader IsVersionNegotationFlag two_long_packets 0
     = Inr \<lparr> header = Long \<lparr> lh_type = 127,
                 lh_destConnectionID = ConnectionID [] 0,
                 lh_srcConnectionID = ConnectionID [] 0,
                 lh_packetNumber = Some (PacketNumber [0, 0, 0, 1]), lh_payloadLength = Some 1,
                 lh_version = Version [0, 0, 0, 1],
                 lh_parsedBuffer = [0xFF, 0, 0, 0, 1, 0x00, 0x01, 0, 0, 0, 1] \<rparr>,
               offset = 11 \<rparr>"
    by (simp add: eval_defs two_long_packets_def)
  have b: "parseHeader IsVersionNegotationFlag two_long_packets (11 + 1)
     = Inr \<lparr> header = Long \<lparr> lh_type = 127,
                 lh_destConnectionID = ConnectionID [] 0,
                 lh_srcConnectionID = ConnectionID [] 0,
                 lh_packetNumber = Some (PacketNumber [0, 0, 0, 2]), lh_payloadLength = Some 0,
                 lh_version = Version [0, 0, 0, 1],
                 lh_parsedBuffer = [0xFF, 0, 0, 0, 1, 0x00, 0x00, 0, 0, 0, 2] \<rparr>,
               offset = 23 \<rparr>"
    by (simp add: eval_defs two_long_packets_def)
  have c: "11 + 1 < length two_long_packets" by (simp add: two_long_packets_def)
  have d: "length two_long_packets \<le> 23 + 0" by (simp add: two_long_packets_def)
  from coalesced_long_headers [OF a _ c b] d
  have two: "Buffer_slice two_long_packets (11 + 1) 23 = [0xFF, 0, 0, 0, 1, 0x00, 0x00, 0, 0, 0, 2]"
    by simp
  have 1: "parseHeader IsVersionNegotationFlag long_then_negotiation 0
     = Inr \<lparr> header = Long \<lparr> lh_type = 127,
                 lh_destConnectionID = ConnectionID [] 0,
                 lh_srcConnectionID = ConnectionID [] 0,
                 lh_packetNumber = Some (PacketNumber [0, 0, 0, 1]), lh_payloadLength = Some 0,
                 lh_version = Version [0, 0, 0, 1],
                 lh_parsedBuffer = [0xFF, 0, 0, 0, 1, 0x00, 0x00, 0, 0, 0, 1] \<rparr>,
               offset = 11 \<rparr>"
    by (simp add: eval_defs long_then_negotiation_def)
  have 2: "parseHeader IsVersionNegotationFlag long_then_negotiation (11 + 0)
     = Inr \<lparr> header = Long \<lparr> lh_type = 0,
                 lh_destConnectionID = ConnectionID [] 0,
                 lh_srcConnectionID = ConnectionID [] 0,
                 lh_packetNumber = None, lh_payloadLength = None,
                 lh_version = Version [0, 0, 0, 0],
                 lh_parsedBuffer = [0x80, 0, 0, 0, 0, 0x00] \<rparr>,
               offset = 17 \<rparr>"
    by (simp add: eval_defs long_then_negotiation_def)
  have 3: "11 + 0 < length long_then_negotiation" by (simp add: long_then_negotiation_def)
  from coalesced_long_headers [OF 1 _ 3 2] two show ?thesis by simp
qed

text \<open>
  Claim C1 as stated says that the offset of the second entry equals the payload-start
  offset of the first entry plus its payload length, here \<open>11 + 1\<close>. That position
  is where the second header starts; the offset of the second entry is the payload
  start of the second packet, 23.
\<close>

theorem coalesced_second_offset:
  "parse IsVersionNegotationFlag two_long_packets
     = Inr [\<lparr> header = Long \<lparr> lh_type = 127,
                 lh_destConnectionID = ConnectionID [] 0,
                 lh_srcConnectionID = ConnectionID [] 0,
                 lh_packetNumber = Some (PacketNumber [0, 0, 0, 1]), lh_payloadLength = Some 1,
                 lh_version = Version [0, 0, 0, 1],
                 lh_parsedBuffer = [0xFF, 0, 0, 0, 1, 0x00, 0x01, 0, 0, 0, 1] \<rparr>,
               offset = 11 \<rparr>,
            \<lparr> header = Long \<lparr> lh_type = 127,
                 lh_destConnectionID = ConnectionID [] 0,
                 lh_srcConnectionID = ConnectionID [] 0,
                 lh_packetNumber = Some (PacketNumber [0, 0, 0, 2]), lh_payloadLength = Some 0,
                 lh_version = Version [0, 0, 0, 1],
                 lh_parsedBuffer = [0xFF, 0, 0, 0, 1, 0x00, 0x00, 0, 0, 0, 2] \<rparr>,
               offset = 23 \<rparr>]"
  by (simp add: eval_defs two_long_packets_def)



end
